theory Spec2Isabelle
  imports Complex_Main "HOL-Library.Sublist"
begin

section \<open>Values shared by both limiters\<close>

text \<open>
  Timestamps are the values returned by \<^verbatim>\<open>time.time()\<close>: Python floats, that is,
  IEEE 754 binary64 numbers. A finite double is a real number, so timestamps have type
  \<open>real\<close>. Every call of \<^verbatim>\<open>time.time()\<close> in the source becomes an explicit argument of the
  operation that makes the call, in the order in which the calls happen.
\<close>

datatype py_error = IndexError | KeyError | ValueError

section \<open>Arithmetic on doubles\<close>

text \<open>
  An addition or subtraction of two doubles returns the exact result rounded to the
  nearest double, ties to the even significand. \<open>round_b64\<close> is that rounding: a number
  in the binade \<open>[2^e, 2^(e+1))\<close> is rounded to a multiple of \<open>2^(e - 52)\<close>, with \<open>e\<close> no
  smaller than \<open>-1022\<close>, below which the doubles are equally spaced. Overflow to infinity
  and NaN are not modelled.
\<close>

definition round_half_even :: "real \<Rightarrow> int" where
  "round_half_even y =
     (let f = \<lfloor>y\<rfloor>; d = y - of_int f
      in if d < 1 / 2 then f
         else if 1 / 2 < d then f + 1
         else if even f then f else f + 1)"

definition binade :: "real \<Rightarrow> int" where
  "binade x = max (- 1022) \<lfloor>log 2 \<bar>x\<bar>\<rfloor>"

definition round_b64 :: "real \<Rightarrow> real" where
  "round_b64 x =
     (if x = 0 then 0
      else of_int (round_half_even (x / 2 powi (binade x - 52))) * 2 powi (binade x - 52))"

section \<open>task01: SlidingWindowRateLimiter\<close>

text \<open>
  The instance: its two configuration fields and the dictionary from user id to the deque
  of timestamps. A deque is a list whose head is the left end.
\<close>

record sliding_window =
  window_size :: real
  max_requests :: int
  user_windows :: "string \<rightharpoonup> real list"

text \<open>
  \<^verbatim>\<open>__init__\<close> stores its arguments and an empty dictionary. It has no raising path; the
  result type is that of a fallible constructor so that this is visible.
\<close>

definition SlidingWindowRateLimiter :: "real \<Rightarrow> int \<Rightarrow> py_error + sliding_window" where
  "SlidingWindowRateLimiter ws mr =
     Inr \<lparr>window_size = ws, max_requests = mr, user_windows = Map.empty\<rparr>"

text \<open>The loop \<^verbatim>\<open>while window and window[0] <= cutoff: window.popleft()\<close>.\<close>

fun popleft_while :: "real \<Rightarrow> real list \<Rightarrow> real list" where
  "popleft_while cutoff [] = []"
| "popleft_while cutoff (t # ts) =
     (if t \<le> cutoff then popleft_while cutoff ts else t # ts)"

text \<open>
  The four methods below compute with doubles: \<^verbatim>\<open>current_time - self.window_size\<close> is
  one rounded subtraction, and \<^verbatim>\<open>oldest + self.window_size - now\<close> is a rounded addition
  followed by a rounded subtraction. Each method is therefore translated with the
  rounding \<open>rnd\<close> of one double operation as its first argument, applied wherever the
  source performs an operation. With \<open>rnd = round_b64\<close> this is what the program computes;
  with the identity for \<open>rnd\<close> it is the same program in exact arithmetic.
\<close>

text \<open>
  \<^verbatim>\<open>_cleanup_window\<close>: nothing for an unknown user; otherwise the deque is popped from
  the left in place and the user's entry is deleted when the deque ends up empty.
\<close>

definition cleanup_window_rounded ::
    "(real \<Rightarrow> real) \<Rightarrow> sliding_window \<Rightarrow> string \<Rightarrow> real \<Rightarrow> sliding_window" where
  "cleanup_window_rounded rnd s user_id current_time =
     (case user_windows s user_id of
        None \<Rightarrow> s
      | Some window \<Rightarrow>
          (let cutoff = rnd (current_time - window_size s);
               window' = popleft_while cutoff window
           in if window' = []
              then s\<lparr>user_windows := (user_windows s)(user_id := None)\<rparr>
              else s\<lparr>user_windows := (user_windows s)(user_id \<mapsto> window')\<rparr>))"

text \<open>
  \<^verbatim>\<open>can_send_message\<close> reads the clock once (\<open>now\<close>), cleans up, and answers. It
  returns the answer and the instance after the cleanup.
\<close>

definition sw_can_send_message_rounded ::
    "(real \<Rightarrow> real) \<Rightarrow> sliding_window \<Rightarrow> string \<Rightarrow> real \<Rightarrow> bool \<times> sliding_window" where
  "sw_can_send_message_rounded rnd s user_id now =
     (let s' = cleanup_window_rounded rnd s user_id now
      in ((case user_windows s' user_id of
             None \<Rightarrow> True
           | Some window \<Rightarrow> int (length window) < max_requests s'), s'))"

text \<open>
  \<^verbatim>\<open>record_message\<close> reads the clock (\<open>now\<close>), cleans up at \<open>now\<close>, and calls
  \<^verbatim>\<open>can_send_message\<close>, which reads the clock again (\<open>now'\<close>) and cleans up at that
  later reading. The timestamp appended is the first reading, \<open>now\<close>.
\<close>

definition sw_record_message_rounded ::
    "(real \<Rightarrow> real) \<Rightarrow> sliding_window \<Rightarrow> string \<Rightarrow> real \<Rightarrow> real
       \<Rightarrow> bool \<times> sliding_window" where
  "sw_record_message_rounded rnd s user_id now now' =
     (let s1 = cleanup_window_rounded rnd s user_id now;
          (ok, s2) = sw_can_send_message_rounded rnd s1 user_id now'
      in if ok
         then (True,
               s2\<lparr>user_windows := (user_windows s2)
                    (user_id \<mapsto> (case user_windows s2 user_id of
                                    None \<Rightarrow> []
                                  | Some window \<Rightarrow> window) @ [now])\<rparr>)
         else (False, s2))"

text \<open>
  \<^verbatim>\<open>time_until_next_allowed\<close>. The read \<^verbatim>\<open>window[0]\<close> raises IndexError on an empty
  deque; the cleanup has already happened by then, so the instance is returned next to
  the result or the error.
\<close>

definition sw_time_until_next_allowed_rounded ::
    "(real \<Rightarrow> real) \<Rightarrow> sliding_window \<Rightarrow> string \<Rightarrow> real
       \<Rightarrow> (py_error + real) \<times> sliding_window" where
  "sw_time_until_next_allowed_rounded rnd s user_id now =
     (let s' = cleanup_window_rounded rnd s user_id now
      in (case user_windows s' user_id of
            None \<Rightarrow> (Inr 0, s')
          | Some window \<Rightarrow>
              if int (length window) < max_requests s' then (Inr 0, s')
              else (case window of
                      [] \<Rightarrow> (Inl IndexError, s')
                    | oldest # _ \<Rightarrow>
                        (let wait = rnd (rnd (oldest + window_size s') - now)
                         in (Inr (max wait 0), s')))))"

text \<open>
  The same four methods in exact arithmetic, where no operation rounds. The properties of
  the store, of sequences of calls and of the waiting time are proved of these; the
  rounding of \<open>round_b64\<close> is used where a property depends on it.
\<close>

definition cleanup_window :: "sliding_window \<Rightarrow> string \<Rightarrow> real \<Rightarrow> sliding_window" where
  "cleanup_window = cleanup_window_rounded (\<lambda>x. x)"

definition sw_can_send_message ::
    "sliding_window \<Rightarrow> string \<Rightarrow> real \<Rightarrow> bool \<times> sliding_window" where
  "sw_can_send_message = sw_can_send_message_rounded (\<lambda>x. x)"

definition sw_record_message ::
    "sliding_window \<Rightarrow> string \<Rightarrow> real \<Rightarrow> real \<Rightarrow> bool \<times> sliding_window" where
  "sw_record_message = sw_record_message_rounded (\<lambda>x. x)"

definition sw_time_until_next_allowed ::
    "sliding_window \<Rightarrow> string \<Rightarrow> real \<Rightarrow> (py_error + real) \<times> sliding_window" where
  "sw_time_until_next_allowed = sw_time_until_next_allowed_rounded (\<lambda>x. x)"

section \<open>task02: ThrottlingRateLimiter\<close>

text \<open>The throttle is translated in exact arithmetic.\<close>

record throttling =
  min_interval :: real
  last_message_time :: "string \<rightharpoonup> real"

definition ThrottlingRateLimiter :: "real \<Rightarrow> py_error + throttling" where
  "ThrottlingRateLimiter mi = Inr \<lparr>min_interval = mi, last_message_time = Map.empty\<rparr>"

definition th_can_send_message :: "throttling \<Rightarrow> string \<Rightarrow> real \<Rightarrow> bool" where
  "th_can_send_message s user_id now =
     (case last_message_time s user_id of
        None \<Rightarrow> True
      | Some last_time \<Rightarrow> now - last_time \<ge> min_interval s)"

text \<open>
  \<^verbatim>\<open>record_message\<close> reads the clock (\<open>now\<close>) and then calls \<^verbatim>\<open>can_send_message\<close>,
  which reads it again (\<open>now'\<close>); what is stored is the first reading.
\<close>

definition th_record_message ::
    "throttling \<Rightarrow> string \<Rightarrow> real \<Rightarrow> real \<Rightarrow> bool \<times> throttling" where
  "th_record_message s user_id now now' =
     (if th_can_send_message s user_id now'
      then (True, s\<lparr>last_message_time := (last_message_time s)(user_id \<mapsto> now)\<rparr>)
      else (False, s))"

definition th_time_until_next_allowed :: "throttling \<Rightarrow> string \<Rightarrow> real \<Rightarrow> real" where
  "th_time_until_next_allowed s user_id now =
     (case last_message_time s user_id of
        None \<Rightarrow> 0
      | Some last_time \<Rightarrow>
          (let elapsed = now - last_time;
               wait = min_interval s - elapsed
           in max wait 0))"

section \<open>Sequences of calls on one sliding-window instance\<close>

text \<open>
  A caller's use of an instance is a list of calls, each carrying the clock readings it
  makes. \<open>sw_exec\<close> is the instance after the calls; \<open>sw_accepted\<close> lists, in order, the
  user and the recorded timestamp of every \<^verbatim>\<open>record_message\<close> that returned True.
\<close>

datatype call =
    CanSend string real
  | RecordMessage string real real
  | TimeUntil string real

fun readings :: "call \<Rightarrow> real list" where
  "readings (CanSend u t) = [t]"
| "readings (RecordMessage u t t') = [t, t']"
| "readings (TimeUntil u t) = [t]"

definition clock_readings :: "call list \<Rightarrow> real list" where
  "clock_readings cs = concat (map readings cs)"


fun sw_step :: "sliding_window \<Rightarrow> call \<Rightarrow> sliding_window" where
  "sw_step s (CanSend u t) = snd (sw_can_send_message s u t)"
| "sw_step s (RecordMessage u t t') = snd (sw_record_message s u t t')"
| "sw_step s (TimeUntil u t) = snd (sw_time_until_next_allowed s u t)"

fun sw_output :: "sliding_window \<Rightarrow> call \<Rightarrow> (string \<times> real) list" where
  "sw_output s (RecordMessage u t t') =
     (if fst (sw_record_message s u t t') then [(u, t)] else [])"
| "sw_output s (CanSend u t) = []"
| "sw_output s (TimeUntil u t) = []"

fun sw_exec :: "sliding_window \<Rightarrow> call list \<Rightarrow> sliding_window" where
  "sw_exec s [] = s"
| "sw_exec s (c # cs) = sw_exec (sw_step s c) cs"

fun sw_accepted :: "sliding_window \<Rightarrow> call list \<Rightarrow> (string \<times> real) list" where
  "sw_accepted s [] = []"
| "sw_accepted s (c # cs) = sw_output s c @ sw_accepted (sw_step s c) cs"

text \<open>The timestamps accepted for one user, and the user's stored sequence.\<close>

definition accepted_for :: "string \<Rightarrow> (string \<times> real) list \<Rightarrow> real list" where
  "accepted_for u l = map snd (filter (\<lambda>p. fst p = u) l)"

definition window_of :: "sliding_window \<Rightarrow> string \<Rightarrow> real list" where
  "window_of s u = (case user_windows s u of None \<Rightarrow> [] | Some w \<Rightarrow> w)"

fun call_user :: "call \<Rightarrow> string" where
  "call_user (CanSend u t) = u"
| "call_user (RecordMessage u t t') = u"
| "call_user (TimeUntil u t) = u"

text \<open>
  A call is instantaneous when all its clock readings are the same value, that is, when
  the clock does not advance between the two reads of a \<^verbatim>\<open>record_message\<close>.
\<close>

definition instantaneous :: "call \<Rightarrow> bool" where
  "instantaneous c = (case c of RecordMessage u t t' \<Rightarrow> t = t' | _ \<Rightarrow> True)"

text \<open>The number of timestamps of a list inside the half-open interval \<open>(now - ws, now]\<close>.\<close>

definition admitted_in :: "real \<Rightarrow> real \<Rightarrow> real list \<Rightarrow> nat" where
  "admitted_in ws now ts = length (filter (\<lambda>t. now - ws < t \<and> t \<le> now) ts)"

section \<open>Invariants of the sliding-window store\<close>

text \<open>
  For one user, at clock value \<open>c\<close>, with \<open>L\<close> the accepted calls so far: the accepted
  timestamps younger than \<open>c - window_size\<close> are exactly the stored ones younger than
  that, and the stored sequence is no longer than \<open>max_requests\<close>.
\<close>

definition admission_inv ::
    "sliding_window \<Rightarrow> real \<Rightarrow> (string \<times> real) list \<Rightarrow> string \<Rightarrow> bool" where
  "admission_inv s c L u \<longleftrightarrow>
     filter (\<lambda>t. c - window_size s < t) (accepted_for u L) =
       filter (\<lambda>t. c - window_size s < t) (window_of s u)
     \<and> int (length (window_of s u)) \<le> max_requests s"




section \<open>The operations in exact arithmetic, written out\<close>

lemma cleanup_window_unfold:
  "cleanup_window s user_id current_time =
     (case user_windows s user_id of
        None \<Rightarrow> s
      | Some window \<Rightarrow>
          (let cutoff = current_time - window_size s;
               window' = popleft_while cutoff window
           in if window' = []
              then s\<lparr>user_windows := (user_windows s)(user_id := None)\<rparr>
              else s\<lparr>user_windows := (user_windows s)(user_id \<mapsto> window')\<rparr>))"
  by (simp add: cleanup_window_def cleanup_window_rounded_def)

lemma sw_can_send_message_unfold:
  "sw_can_send_message s user_id now =
     (let s' = cleanup_window s user_id now
      in ((case user_windows s' user_id of
             None \<Rightarrow> True
           | Some window \<Rightarrow> int (length window) < max_requests s'), s'))"
  by (simp add: sw_can_send_message_def sw_can_send_message_rounded_def cleanup_window_def)

lemma sw_record_message_unfold:
  "sw_record_message s user_id now now' =
     (let s1 = cleanup_window s user_id now;
          (ok, s2) = sw_can_send_message s1 user_id now'
      in if ok
         then (True,
               s2\<lparr>user_windows := (user_windows s2)
                    (user_id \<mapsto> (case user_windows s2 user_id of
                                    None \<Rightarrow> []
                                  | Some window \<Rightarrow> window) @ [now])\<rparr>)
         else (False, s2))"
  by (simp add: sw_record_message_def sw_record_message_rounded_def sw_can_send_message_def
      cleanup_window_def)

lemma sw_time_until_next_allowed_unfold:
  "sw_time_until_next_allowed s user_id now =
     (let s' = cleanup_window s user_id now
      in (case user_windows s' user_id of
            None \<Rightarrow> (Inr 0, s')
          | Some window \<Rightarrow>
              if int (length window) < max_requests s' then (Inr 0, s')
              else (case window of
                      [] \<Rightarrow> (Inl IndexError, s')
                    | oldest # _ \<Rightarrow>
                        (let wait = oldest + window_size s' - now
                         in (Inr (max wait 0), s')))))"
  by (simp add: sw_time_until_next_allowed_def sw_time_until_next_allowed_rounded_def
      cleanup_window_def)

section \<open>Evaluating the rounding\<close>

lemma binade_eqI:
  assumes "0 < x" and "- 1022 \<le> e" and "2 powi e \<le> x" and "x < 2 powi (e + 1)"
  shows "binade x = e"
proof -
  have p: "2 powr real_of_int k = (2::real) powi k" for k
    by (simp add: powr_real_of_int')
  have "2 powr real_of_int e \<le> x" and "x < 2 powr (real_of_int e + 1)"
    using assms(3,4) p[of e] p[of "e + 1"] by simp_all
  then have "\<lfloor>log 2 x\<rfloor> = e"
    using assms(1) by (simp add: floor_log_eq_powr_iff)
  with assms show ?thesis by (simp add: binade_def)
qed

lemma round_b64_eqI:
  assumes "0 < x" and "- 1022 \<le> e" and "2 powi e \<le> x" and "x < 2 powi (e + 1)"
  shows "round_b64 x = of_int (round_half_even (x / 2 powi (e - 52))) * 2 powi (e - 52)"
  using binade_eqI[OF assms] assms(1) by (simp add: round_b64_def)

lemma round_b64_zero: "round_b64 0 = 0"
  by (simp add: round_b64_def)

text \<open>The doubles that Python reads for the literals \<^verbatim>\<open>0.1\<close> and \<^verbatim>\<open>0.6\<close>.\<close>

lemma double_one_tenth: "round_b64 (1 / 10) = 3602879701896397 / 2 ^ 55"
  by (subst round_b64_eqI[where e = "- 4"])
    (simp_all add: round_half_even_def Let_def power_int_minus)

lemma double_six_tenths: "round_b64 (6 / 10) = 5404319552844595 / 2 ^ 53"
  by (subst round_b64_eqI[where e = "- 1"])
    (simp_all add: round_half_even_def Let_def power_int_minus)

text \<open>
  \<^verbatim>\<open>0.6 - 0.5\<close> is exact and lies just below the double \<^verbatim>\<open>0.1\<close>, while \<^verbatim>\<open>0.1 + 0.5\<close>
  rounds down to the double \<^verbatim>\<open>0.6\<close>.
\<close>

lemma double_difference: "round_b64 (5404319552844595 / 2 ^ 53 - 1 / 2) = 900719925474099 / 2 ^ 53"
  by (subst round_b64_eqI[where e = "- 4"])
    (simp_all add: round_half_even_def Let_def power_int_minus)

lemma double_sum: "round_b64 (3602879701896397 / 2 ^ 55 + 1 / 2) = 5404319552844595 / 2 ^ 53"
  by (subst round_b64_eqI[where e = "- 1"])
    (simp_all add: round_half_even_def Let_def power_int_minus)

lemma double_difference_numeral:
  "round_b64 (900719925474099 / 9007199254740992) = 900719925474099 / 9007199254740992"
  using double_difference by simp

lemma double_sum_numeral:
  "round_b64 (21617278211378381 / 36028797018963968) = 5404319552844595 / 9007199254740992"
  using double_sum by simp

text \<open>Whatever the rounding, a user who is allowed is told to wait 0.\<close>

lemma allowed_gives_zero_wait:
  "fst (sw_can_send_message_rounded rnd s u t)
   \<Longrightarrow> fst (sw_time_until_next_allowed_rounded rnd s u t) = Inr 0"
  by (auto simp: sw_can_send_message_rounded_def sw_time_until_next_allowed_rounded_def Let_def
      split: option.splits)

section \<open>Basic facts about the cleanup\<close>

lemma popleft_while_dropWhile: "popleft_while c w = dropWhile (\<lambda>t. t \<le> c) w"
  by (induction w) auto

lemma cleanup_window_size [simp]: "window_size (cleanup_window s u t) = window_size s"
  by (simp add: cleanup_window_unfold Let_def split: option.splits)

lemma cleanup_max_requests [simp]: "max_requests (cleanup_window s u t) = max_requests s"
  by (simp add: cleanup_window_unfold Let_def split: option.splits)

lemma cleanup_other [simp]: "a \<noteq> b \<Longrightarrow> user_windows (cleanup_window s a t) b = user_windows s b"
  by (simp add: cleanup_window_unfold Let_def split: option.splits)

lemma window_of_cleanup_same:
  "window_of (cleanup_window s u t) u = popleft_while (t - window_size s) (window_of s u)"
  by (simp add: cleanup_window_unfold window_of_def Let_def split: option.splits)

lemma window_of_cleanup_other [simp]:
  "a \<noteq> b \<Longrightarrow> window_of (cleanup_window s a t) b = window_of s b"
  by (simp add: window_of_def)

lemma cleanup_not_empty: "user_windows s u \<noteq> Some [] \<Longrightarrow> user_windows (cleanup_window s a t) u \<noteq> Some []"
  by (cases "a = u") (auto simp: cleanup_window_unfold Let_def split: option.splits)

lemma cleanup_same_not_empty: "user_windows (cleanup_window s u t) u \<noteq> Some []"
  by (auto simp: cleanup_window_unfold Let_def split: option.splits)

section \<open>What each operation does to the stored sequences\<close>

lemma sw_tuna_state: "snd (sw_time_until_next_allowed s u t) = cleanup_window s u t"
  by (simp add: sw_time_until_next_allowed_unfold Let_def split: option.splits list.splits)

lemma sw_can_state: "snd (sw_can_send_message s u t) = cleanup_window s u t"
  by (simp add: sw_can_send_message_unfold Let_def)

lemma user_windows_None_iff: "user_windows s u \<noteq> Some [] \<Longrightarrow> user_windows s u = None \<longleftrightarrow> window_of s u = []"
  by (auto simp: window_of_def split: option.splits)

lemma sw_can_send_fst:
  "fst (sw_can_send_message s u t) \<longleftrightarrow>
     (let w = popleft_while (t - window_size s) (window_of s u)
      in w = [] \<or> int (length w) < max_requests s)"
  by (auto simp: sw_can_send_message_unfold cleanup_window_unfold window_of_def Let_def split: option.splits)

lemma sw_record_fst:
  "fst (sw_record_message s u t t') \<longleftrightarrow>
     (let w = popleft_while (t' - window_size s) (popleft_while (t - window_size s) (window_of s u))
      in w = [] \<or> int (length w) < max_requests s)"
  by (simp add: sw_record_message_unfold sw_can_send_fst window_of_cleanup_same Let_def split: prod.splits)
   (metis fst_conv sw_can_send_fst cleanup_window_size cleanup_max_requests window_of_cleanup_same)

lemma sw_record_window_same:
  "window_of (snd (sw_record_message s u t t')) u =
     (let w = popleft_while (t' - window_size s) (popleft_while (t - window_size s) (window_of s u))
      in if w = [] \<or> int (length w) < max_requests s then w @ [t] else w)"
proof -
  let ?s1 = "cleanup_window s u t"
  let ?s2 = "cleanup_window ?s1 u t'"
  let ?w = "popleft_while (t' - window_size s) (popleft_while (t - window_size s) (window_of s u))"
  have w: "window_of ?s2 u = ?w" by (simp add: window_of_cleanup_same)
  have ne: "user_windows ?s2 u \<noteq> Some []" by (rule cleanup_same_not_empty)
  have ok: "fst (sw_can_send_message ?s1 u t') \<longleftrightarrow> (?w = [] \<or> int (length ?w) < max_requests s)"
    by (simp add: sw_can_send_fst window_of_cleanup_same Let_def)
  show ?thesis
  proof (cases "fst (sw_can_send_message ?s1 u t')")
    case True
    then have "snd (sw_record_message s u t t') =
        ?s2\<lparr>user_windows := (user_windows ?s2)(u \<mapsto> window_of ?s2 u @ [t])\<rparr>"
      by (simp add: sw_record_message_unfold Let_def window_of_def sw_can_send_message_unfold split: prod.splits)
    then have "window_of (snd (sw_record_message s u t t')) u = ?w @ [t]"
      using w by (simp add: window_of_def)
    with True ok show ?thesis by (simp add: Let_def)
  next
    case False
    then have "snd (sw_record_message s u t t') = ?s2"
      by (simp add: sw_record_message_unfold Let_def sw_can_send_message_unfold split: prod.splits)
    with False ok w show ?thesis by (simp add: Let_def)
  qed
qed

lemma popleft_hd: "popleft_while c w = x # xs \<Longrightarrow> c < x"
  by (induction w) (auto split: if_splits)

lemma popleft_hd': "popleft_while c w \<noteq> [] \<Longrightarrow> c < hd (popleft_while c w)"
  by (cases "popleft_while c w") (auto dest: popleft_hd)

lemma cleanup_None_iff:
  "user_windows (cleanup_window s u t) u = None \<longleftrightarrow> window_of (cleanup_window s u t) u = []"
  using cleanup_same_not_empty[of s u t] by (rule user_windows_None_iff)

lemma sw_tuna_fst:
  "fst (sw_time_until_next_allowed s u t) =
     (let w = popleft_while (t - window_size s) (window_of s u)
      in if w = [] \<or> int (length w) < max_requests s then Inr 0
         else Inr (max (hd w + window_size s - t) 0))"
proof (cases "user_windows (cleanup_window s u t) u")
  case None
  then have "popleft_while (t - window_size s) (window_of s u) = []"
    using cleanup_None_iff[of s u t] by (simp add: window_of_cleanup_same)
  with None show ?thesis by (simp add: sw_time_until_next_allowed_unfold Let_def)
next
  case (Some w)
  then have w: "popleft_while (t - window_size s) (window_of s u) = w"
    using window_of_cleanup_same[of s u t] by (simp add: window_of_def)
  from Some have "w \<noteq> []" using cleanup_same_not_empty[of s u t] by auto
  then obtain x xs where "w = x # xs" by (cases w) auto
  with Some w show ?thesis by (simp add: sw_time_until_next_allowed_unfold Let_def)
qed

lemma sw_record_state_other: "a \<noteq> b \<Longrightarrow> user_windows (snd (sw_record_message s a t t')) b = user_windows s b"
  by (simp add: sw_record_message_unfold sw_can_send_message_unfold Let_def split: prod.splits)

lemma sw_record_ws [simp]: "window_size (snd (sw_record_message s a t t')) = window_size s"
  by (simp add: sw_record_message_unfold sw_can_send_message_unfold Let_def split: prod.splits)

lemma sw_record_mr [simp]: "max_requests (snd (sw_record_message s a t t')) = max_requests s"
  by (simp add: sw_record_message_unfold sw_can_send_message_unfold Let_def split: prod.splits)

lemma sw_step_ws [simp]: "window_size (sw_step s c) = window_size s"
  by (cases c) (simp_all add: sw_can_state sw_tuna_state)

lemma sw_step_mr [simp]: "max_requests (sw_step s c) = max_requests s"
  by (cases c) (simp_all add: sw_can_state sw_tuna_state)

lemma sw_exec_ws [simp]: "window_size (sw_exec s cs) = window_size s"
  by (induction cs arbitrary: s) simp_all

lemma sw_exec_mr [simp]: "max_requests (sw_exec s cs) = max_requests s"
  by (induction cs arbitrary: s) simp_all

lemma sw_step_other: "call_user c \<noteq> u \<Longrightarrow> user_windows (sw_step s c) u = user_windows s u"
  by (cases c) (simp_all add: sw_can_state sw_tuna_state sw_record_state_other)

lemma sw_step_window_other: "call_user c \<noteq> u \<Longrightarrow> window_of (sw_step s c) u = window_of s u"
  by (simp add: window_of_def sw_step_other)

lemma sw_output_other: "call_user c \<noteq> u \<Longrightarrow> accepted_for u (sw_output s c) = []"
  by (cases c) (simp_all add: accepted_for_def)

lemma accepted_for_append [simp]: "accepted_for u (xs @ ys) = accepted_for u xs @ accepted_for u ys"
  by (simp add: accepted_for_def)

lemma accepted_for_Nil [simp]: "accepted_for u [] = []"
  by (simp add: accepted_for_def)

section \<open>The admission invariant\<close>

lemma filter_popleft: "c \<le> k \<Longrightarrow> filter (\<lambda>t. k < t) (popleft_while c w) = filter (\<lambda>t. k < t) w"
  by (induction w) auto

lemma popleft_popleft: "c1 \<le> c2 \<Longrightarrow> popleft_while c2 (popleft_while c1 w) = popleft_while c2 w"
  by (induction w) auto

lemma length_popleft: "length (popleft_while c w) \<le> length w"
  by (induction w) auto

lemma filter_weaken:
  assumes "filter (\<lambda>t. (c::real) < t) xs = filter (\<lambda>t. c < t) ys" and "c \<le> k"
  shows "filter (\<lambda>t. k < t) xs = filter (\<lambda>t. k < t) ys"
proof -
  have "filter (\<lambda>t. k < t) (filter (\<lambda>t. c < t) xs) = filter (\<lambda>t. k < t) (filter (\<lambda>t. c < t) ys)"
    using assms(1) by simp
  moreover have "filter (\<lambda>t. k < t) (filter (\<lambda>t. c < t) zs) = filter (\<lambda>t. k < t) zs" for zs
    using assms(2) by (induction zs) auto
  ultimately show ?thesis by simp
qed

lemma admission_inv_mono:
  "admission_inv s c L u \<Longrightarrow> c \<le> c' \<Longrightarrow> admission_inv s c' L u"
  unfolding admission_inv_def
  using filter_weaken[of "c - window_size s" "accepted_for u L" "window_of s u" "c' - window_size s"]
  by simp

lemma admission_inv_prune:
  assumes inv: "admission_inv s c L u" and ct: "c \<le> t"
    and w: "window_of s' u = popleft_while (t - window_size s) (window_of s u)"
    and cfg: "window_size s' = window_size s" "max_requests s' = max_requests s"
  shows "admission_inv s' t L u"
proof -
  let ?ws = "window_size s"
  from inv have eq: "filter (\<lambda>x. c - ?ws < x) (accepted_for u L) = filter (\<lambda>x. c - ?ws < x) (window_of s u)"
    and len: "int (length (window_of s u)) \<le> max_requests s" by (simp_all add: admission_inv_def)
  have k: "c - ?ws \<le> t - ?ws" using ct by simp
  have "filter (\<lambda>x. t - ?ws < x) (accepted_for u L) = filter (\<lambda>x. t - ?ws < x) (window_of s u)"
    by (rule filter_weaken[OF eq k])
  moreover have "filter (\<lambda>x. t - ?ws < x) (window_of s' u) = filter (\<lambda>x. t - ?ws < x) (window_of s u)"
    unfolding w by (rule filter_popleft) simp
  moreover have "length (window_of s' u) \<le> length (window_of s u)"
    unfolding w by (rule length_popleft)
  ultimately show ?thesis using len unfolding admission_inv_def cfg by simp
qed

lemma admission_inv_record:
  assumes inv: "admission_inv s c L u" and mr: "1 \<le> max_requests s"
    and ct: "c \<le> t" and tt: "t \<le> t'"
  shows "admission_inv (snd (sw_record_message s u t t')) t'
           (L @ (if fst (sw_record_message s u t t') then [(u, t)] else [])) u"
proof -
  let ?ws = "window_size s"
  let ?w1 = "popleft_while (t - ?ws) (window_of s u)"
  let ?w = "popleft_while (t' - ?ws) ?w1"
  let ?s' = "snd (sw_record_message s u t t')"
  from inv have eq: "filter (\<lambda>x. c - ?ws < x) (accepted_for u L) = filter (\<lambda>x. c - ?ws < x) (window_of s u)"
    and len: "int (length (window_of s u)) \<le> max_requests s" by (simp_all add: admission_inv_def)
  have k: "c - ?ws \<le> t' - ?ws" using ct tt by simp
  have e1: "filter (\<lambda>x. t' - ?ws < x) (accepted_for u L) = filter (\<lambda>x. t' - ?ws < x) (window_of s u)"
    by (rule filter_weaken[OF eq k])
  have "filter (\<lambda>x. t' - ?ws < x) ?w = filter (\<lambda>x. t' - ?ws < x) ?w1"
    by (rule filter_popleft) simp
  also have "\<dots> = filter (\<lambda>x. t' - ?ws < x) (window_of s u)"
    by (rule filter_popleft) (use tt in simp)
  finally have e2: "filter (\<lambda>x. t' - ?ws < x) ?w = filter (\<lambda>x. t' - ?ws < x) (window_of s u)" .
  have "length ?w \<le> length ?w1" by (rule length_popleft)
  also have "\<dots> \<le> length (window_of s u)" by (rule length_popleft)
  finally have l2: "length ?w \<le> length (window_of s u)" .
  show ?thesis
  proof (cases "?w = [] \<or> int (length ?w) < max_requests s")
    case ok: True
    then have f: "fst (sw_record_message s u t t')" by (simp add: sw_record_fst Let_def)
    have w': "window_of ?s' u = ?w @ [t]"
      using ok by (simp add: sw_record_window_same Let_def)
    have l: "int (length (?w @ [t])) \<le> max_requests s" using ok mr by auto
    have "filter (\<lambda>x. t' - ?ws < x) (accepted_for u (L @ [(u, t)])) =
          filter (\<lambda>x. t' - ?ws < x) (accepted_for u L) @ filter (\<lambda>x. t' - ?ws < x) [t]"
      by (simp add: accepted_for_def)
    also have "\<dots> = filter (\<lambda>x. t' - ?ws < x) (?w @ [t])"
      unfolding e1 filter_append e2 ..
    finally show ?thesis using f l unfolding admission_inv_def w' by simp
  next
    case no: False
    then have f: "\<not> fst (sw_record_message s u t t')" by (simp add: sw_record_fst Let_def)
    have w': "window_of ?s' u = ?w"
      using no by (simp add: sw_record_window_same Let_def)
    from e1 e2 have "filter (\<lambda>x. t' - ?ws < x) (accepted_for u L) = filter (\<lambda>x. t' - ?ws < x) ?w" by simp
    then show ?thesis using f l2 len unfolding admission_inv_def w' by simp
  qed
qed

lemma admission_inv_step:
  assumes inv: "admission_inv s c L u" and mr: "1 \<le> max_requests s"
    and mono: "sorted (c # readings x)"
  shows "admission_inv (sw_step s x) (last (c # readings x)) (L @ sw_output s x) u"
proof (cases "call_user x = u")
  case False
  have "c \<le> last (c # readings x)" using mono by (cases x) auto
  from admission_inv_mono[OF inv this] False show ?thesis
    by (simp add: admission_inv_def sw_step_window_other sw_output_other)
next
  case True
  show ?thesis
  proof (cases x)
    case (CanSend a t)
    with True mono have au: "a = u" and ct: "c \<le> t" by auto
    have "admission_inv (snd (sw_can_send_message s u t)) t L u"
      by (rule admission_inv_prune[OF inv ct]) (simp_all add: sw_can_state window_of_cleanup_same)
    then show ?thesis using CanSend au by simp
  next
    case (TimeUntil a t)
    with True mono have au: "a = u" and ct: "c \<le> t" by auto
    have "admission_inv (snd (sw_time_until_next_allowed s u t)) t L u"
      by (rule admission_inv_prune[OF inv ct]) (simp_all add: sw_tuna_state window_of_cleanup_same)
    then show ?thesis using TimeUntil au by simp
  next
    case (RecordMessage a t t')
    with True mono have au: "a = u" and ct: "c \<le> t" and tt: "t \<le> t'" by auto
    from admission_inv_record[OF inv mr ct tt] show ?thesis using RecordMessage au by simp
  qed
qed

lemma clock_readings_Cons: "clock_readings (x # cs) = readings x @ clock_readings cs"
  by (simp add: clock_readings_def)

lemma readings_not_Nil: "readings x \<noteq> []"
  by (cases x) simp_all

lemma admission_inv_exec:
  assumes "admission_inv s c L u" and "1 \<le> max_requests s"
    and "sorted (c # clock_readings cs)"
  shows "admission_inv (sw_exec s cs) (last (c # clock_readings cs)) (L @ sw_accepted s cs) u"
  using assms
proof (induction cs arbitrary: s c L)
  case Nil
  then show ?case by (simp add: clock_readings_def)
next
  case (Cons x cs)
  let ?c' = "last (c # readings x)"
  from Cons.prems(3) have s1: "sorted (c # readings x)" and s2: "sorted (?c' # clock_readings cs)"
    by (auto simp: clock_readings_Cons sorted_append readings_not_Nil)
  have "admission_inv (sw_step s x) ?c' (L @ sw_output s x) u"
    by (rule admission_inv_step[OF Cons.prems(1,2) s1])
  from Cons.IH[OF this _ s2] Cons.prems(2)
  have "admission_inv (sw_exec (sw_step s x) cs) (last (?c' # clock_readings cs))
          ((L @ sw_output s x) @ sw_accepted (sw_step s x) cs) u" by simp
  moreover have "last (?c' # clock_readings cs) = last (c # clock_readings (x # cs))"
    by (simp add: clock_readings_Cons readings_not_Nil)
  ultimately show ?case by simp
qed

lemma length_filter_conj_le: "length (filter (\<lambda>t. P t \<and> Q t) xs) \<le> length (filter P xs)"
  by (induction xs) auto

lemma admission_inv_bound:
  assumes "admission_inv s c L u"
  shows "int (admitted_in (window_size s) c (accepted_for u L)) \<le> max_requests s"
proof -
  let ?P = "\<lambda>t. c - window_size s < t"
  have "admitted_in (window_size s) c (accepted_for u L) \<le> length (filter ?P (accepted_for u L))"
    unfolding admitted_in_def by (rule length_filter_conj_le)
  also have "\<dots> = length (filter ?P (window_of s u))"
    using assms by (simp add: admission_inv_def)
  also have "\<dots> \<le> length (window_of s u)" by (rule length_filter_le)
  finally show ?thesis using assms by (simp add: admission_inv_def)
qed

lemma clock_readings_Nil_iff: "clock_readings cs = [] \<longleftrightarrow> cs = []"
  by (cases cs) (simp_all add: clock_readings_def readings_not_Nil)

lemma admission_bound_trailing:
  assumes init: "SlidingWindowRateLimiter ws mr = Inr s0"
    and mr: "1 \<le> mr"
    and mono: "sorted (clock_readings cs)"
    and now: "\<forall>r \<in> set (clock_readings cs). r \<le> now"
  shows "int (admitted_in ws now (accepted_for u (sw_accepted s0 cs))) \<le> mr"
proof -
  from init have s0: "s0 = \<lparr>window_size = ws, max_requests = mr, user_windows = Map.empty\<rparr>"
    by (simp add: SlidingWindowRateLimiter_def)
  define c where "c = (if cs = [] then now else hd (clock_readings cs))"
  have i0: "admission_inv s0 c [] u" using mr by (simp add: admission_inv_def s0 window_of_def)
  have sc: "sorted (c # clock_readings cs)"
  proof (cases "clock_readings cs")
    case Nil then show ?thesis by simp
  next
    case (Cons r rs)
    then have "cs \<noteq> []" by (auto simp: clock_readings_def)
    with Cons have "c = r" by (simp add: c_def)
    with mono Cons show ?thesis by simp
  qed
  have le: "last (c # clock_readings cs) \<le> now"
  proof (cases "cs = []")
    case True then show ?thesis by (simp add: c_def clock_readings_def)
  next
    case False
    then have ne: "clock_readings cs \<noteq> []" by (simp add: clock_readings_Nil_iff)
    then have "last (clock_readings cs) \<in> set (clock_readings cs)" by simp
    with now ne show ?thesis by simp
  qed
  from admission_inv_exec[OF i0 _ sc] mr
  have "admission_inv (sw_exec s0 cs) (last (c # clock_readings cs)) (sw_accepted s0 cs) u"
    by (simp add: s0)
  from admission_inv_bound[OF admission_inv_mono[OF this le]] show ?thesis by (simp add: s0)
qed

lemma sw_accepted_append:
  "sw_accepted s (cs @ ds) = sw_accepted s cs @ sw_accepted (sw_exec s cs) ds"
  by (induction cs arbitrary: s) simp_all

lemma clock_readings_append: "clock_readings (cs @ ds) = clock_readings cs @ clock_readings ds"
  by (simp add: clock_readings_def)

lemma admitted_in_append: "admitted_in ws T (xs @ ys) = admitted_in ws T xs + admitted_in ws T ys"
  by (simp add: admitted_in_def)

lemma output_late:
  assumes "instantaneous x" and "T < last (readings x)"
  shows "admitted_in ws T (accepted_for u (sw_output s x)) = 0"
  using assms by (cases x) (auto simp: instantaneous_def admitted_in_def accepted_for_def)

lemma sorted_le_last: "sorted xs \<Longrightarrow> (r::real) \<in> set xs \<Longrightarrow> r \<le> last xs"
  by (induction xs) auto

lemma admission_bound_any_interval:
  assumes init: "SlidingWindowRateLimiter ws mr = Inr s0"
    and mr: "1 \<le> mr"
    and mono: "sorted (clock_readings cs)"
    and inst: "\<forall>c \<in> set cs. instantaneous c"
  shows "int (admitted_in ws T (accepted_for u (sw_accepted s0 cs))) \<le> mr"
  using mono inst
proof (induction cs rule: rev_induct)
  case Nil
  then show ?case using mr by (simp add: admitted_in_def)
next
  case (snoc x cs)
  from snoc.prems have m': "sorted (clock_readings cs)" and i': "\<forall>c \<in> set cs. instantaneous c"
    and ix: "instantaneous x"
    by (auto simp: clock_readings_append sorted_append)
  show ?case
  proof (cases "\<forall>r \<in> set (clock_readings (cs @ [x])). r \<le> T")
    case True
    from admission_bound_trailing[OF init mr snoc.prems(1) True] show ?thesis .
  next
    case False
    then obtain r where r: "r \<in> set (clock_readings (cs @ [x]))" "T < r" by auto
    have ne: "readings x \<noteq> []" by (rule readings_not_Nil)
    have "last (clock_readings (cs @ [x])) = last (readings x)"
      using ne by (simp add: clock_readings_append clock_readings_def)
    moreover have "r \<le> last (clock_readings (cs @ [x]))"
      using snoc.prems(1) r(1)
      by (rule sorted_le_last)
    ultimately have "T < last (readings x)" using r(2) by simp
    from output_late[OF ix this]
    have "admitted_in ws T (accepted_for u (sw_output (sw_exec s0 cs) x)) = 0" .
    then have "admitted_in ws T (accepted_for u (sw_accepted s0 (cs @ [x])))
             = admitted_in ws T (accepted_for u (sw_accepted s0 cs))"
      by (simp add: sw_accepted_append admitted_in_append)
    with snoc.IH[OF m' i'] show ?thesis by simp
  qed
qed

section \<open>Stored sequences stay sorted under a non-decreasing clock\<close>











section \<open>No empty entry is ever stored\<close>

lemma sw_record_not_empty:
  "user_windows s v \<noteq> Some [] \<Longrightarrow> user_windows (snd (sw_record_message s u t t')) v \<noteq> Some []"
proof (cases "u = v")
  case False
  assume "user_windows s v \<noteq> Some []"
  with False show ?thesis by (simp add: sw_record_state_other)
next
  case True
  have "user_windows (cleanup_window (cleanup_window s u t) u t') u \<noteq> Some []"
    by (rule cleanup_same_not_empty)
  with True show ?thesis
    by (simp add: sw_record_message_unfold sw_can_send_message_unfold Let_def split: prod.splits)
qed

lemma sw_step_not_empty:
  "user_windows s v \<noteq> Some [] \<Longrightarrow> user_windows (sw_step s c) v \<noteq> Some []"
  by (cases c) (simp_all add: sw_can_state sw_tuna_state cleanup_not_empty sw_record_not_empty)

lemma sw_exec_not_empty:
  "\<forall>v. user_windows s v \<noteq> Some [] \<Longrightarrow> user_windows (sw_exec s cs) v \<noteq> Some []"
  by (induction cs arbitrary: s) (simp_all add: sw_step_not_empty)

section \<open>The waiting time as the clock advances\<close>



lemma suffix_popleft: "suffix (popleft_while c w) w"
  by (simp add: popleft_while_dropWhile suffix_dropWhile)

lemma suffix_cleanup: "suffix (window_of (cleanup_window s u t) v) (window_of s v)"
  by (cases "u = v") (simp_all add: window_of_cleanup_same suffix_popleft)







section \<open>Cleaning up twice\<close>

lemma cleanup_cleanup:
  assumes "t \<le> t'"
  shows "cleanup_window (cleanup_window s u t) u t' = cleanup_window s u t'"
proof (cases "user_windows s u")
  case None
  then show ?thesis by (simp add: cleanup_window_unfold)
next
  case (Some w)
  have pp: "popleft_while (t' - window_size s) (popleft_while (t - window_size s) w)
          = popleft_while (t' - window_size s) w"
    using assms by (simp add: popleft_popleft)
  show ?thesis
  proof (cases "popleft_while (t - window_size s) w = []")
    case True
    with pp have "popleft_while (t' - window_size s) w = []" by simp
    with True Some show ?thesis by (simp add: cleanup_window_unfold Let_def)
  next
    case False
    with Some pp show ?thesis by (simp add: cleanup_window_unfold Let_def)
  qed
qed

section \<open>Properties of the two limiters\<close>

subsection \<open>C1: admission bound of the sliding window\<close>

text \<open>
  With \<open>max_requests \<ge> 1\<close> and a non-decreasing clock, \<open>admission_bound_trailing\<close> bounds
  the accepted timestamps in \<open>(now - window_size, now]\<close> by \<open>max_requests\<close> for every
  \<open>now\<close> at or after the last clock reading, and \<open>admission_bound_any_interval\<close> does so
  for every \<open>now\<close> when each \<^verbatim>\<open>record_message\<close> reads the same clock value twice. The
  second condition cannot be dropped.
\<close>

text \<open>
  C1. The property: for every user and every sequence of calls under a non-decreasing
  clock, the number of \<^verbatim>\<open>record_message\<close> calls that returned True and whose timestamps
  lie in a half-open interval \<open>(now - window_size, now]\<close> never exceeds \<open>max_requests\<close>.
  The program breaks it. Take \<open>window_size = 10\<close> and \<open>max_requests = 1\<close>. A first
  \<^verbatim>\<open>record_message\<close> reads the clock at 0 and is accepted. A second one reads 9, and the
  \<^verbatim>\<open>can_send_message\<close> it calls reads 10: the check at 10 expires the timestamp 0 and
  allows the call, and the timestamp appended is the earlier reading, 9. Both calls
  returned True, and their timestamps 0 and 9 both lie in \<open>(-1, 9]\<close>.
\<close>

theorem C1_stale_timestamp:
  "SlidingWindowRateLimiter 10 1 =
      Inr \<lparr>window_size = 10, max_requests = 1, user_windows = Map.empty\<rparr>
   \<and> sorted (clock_readings [RecordMessage ''u'' 0 0, RecordMessage ''u'' 9 10])
   \<and> sw_accepted \<lparr>window_size = 10, max_requests = 1, user_windows = Map.empty\<rparr>
        [RecordMessage ''u'' 0 0, RecordMessage ''u'' 9 10] = [(''u'', 0), (''u'', 9)]
   \<and> admitted_in 10 9 (accepted_for ''u''
        (sw_accepted \<lparr>window_size = 10, max_requests = 1, user_windows = Map.empty\<rparr>
           [RecordMessage ''u'' 0 0, RecordMessage ''u'' 9 10])) = 2
   \<and> \<not> int (admitted_in 10 9 (accepted_for ''u''
        (sw_accepted \<lparr>window_size = 10, max_requests = 1, user_windows = Map.empty\<rparr>
           [RecordMessage ''u'' 0 0, RecordMessage ''u'' 9 10]))) \<le> 1"
  by (simp add: SlidingWindowRateLimiter_def clock_readings_def sw_record_message_unfold
      sw_can_send_message_unfold cleanup_window_unfold Let_def admitted_in_def accepted_for_def)

subsection \<open>C2: construction with non-positive configuration\<close>

text \<open>
  C2. Neither constructor checks its arguments: for every configuration, also a
  non-positive one, construction succeeds and returns an instance that holds the values
  given and an empty store.
\<close>

theorem C2_constructors_accept:
  "SlidingWindowRateLimiter ws mr
     = Inr \<lparr>window_size = ws, max_requests = mr, user_windows = Map.empty\<rparr>
   \<and> ThrottlingRateLimiter mi = Inr \<lparr>min_interval = mi, last_message_time = Map.empty\<rparr>"
  by (simp add: SlidingWindowRateLimiter_def ThrottlingRateLimiter_def)

text \<open>
  Construction with \<open>window_size = 0\<close> and \<open>max_requests = 0\<close>, or with
  \<open>min_interval = 0\<close>, does not fail.
\<close>

theorem C2_counterexample:
  "\<not> isl (SlidingWindowRateLimiter 0 0) \<and> \<not> isl (ThrottlingRateLimiter 0)"
  by (simp add: SlidingWindowRateLimiter_def ThrottlingRateLimiter_def)

subsection \<open>C3: can_send_message of the sliding window\<close>




subsection \<open>C4: can_send_message of the throttle\<close>



subsection \<open>C5: time_until_next_allowed of the sliding window\<close>



subsection \<open>C6: a rejected record_message changes nothing\<close>

text \<open>
  C6. Whenever \<^verbatim>\<open>record_message\<close> returns False, no timestamp is appended or replaced.
  For the sliding window the instance after the call is the instance after the two
  cleanups the call performs, which under a non-decreasing clock is the instance after
  the cleanup at the later reading alone; every user's stored sequence is then what
  remains of the old one after dropping timestamps from its left end. For the throttle
  the instance is unchanged.
\<close>

theorem C6_rejection_atomic:
  "(\<not> fst (sw_record_message s u now now') \<longrightarrow>
       snd (sw_record_message s u now now') = cleanup_window (cleanup_window s u now) u now'
     \<and> (now \<le> now' \<longrightarrow> snd (sw_record_message s u now now') = cleanup_window s u now')
     \<and> (\<forall>v. suffix (window_of (snd (sw_record_message s u now now')) v) (window_of s v)))
   \<and> (\<not> fst (th_record_message th u now now') \<longrightarrow> snd (th_record_message th u now now') = th)"
proof -
  have a: "snd (sw_record_message s u now now') = cleanup_window (cleanup_window s u now) u now'"
    if "\<not> fst (sw_record_message s u now now')"
    using that by (simp add: sw_record_message_unfold sw_can_send_message_unfold Let_def split: if_splits)
  have b: "snd (th_record_message th u now now') = th" if "\<not> fst (th_record_message th u now now')"
    using that by (simp add: th_record_message_def split: if_splits)
  have c: "suffix (window_of (cleanup_window (cleanup_window s u now) u now') v) (window_of s v)" for v
    using suffix_cleanup[of "cleanup_window s u now" u now' v] suffix_cleanup[of s u now v]
    by (rule suffix_order.trans)
  from a b c show ?thesis by (simp add: cleanup_cleanup)
qed

theorem C6_rejection_atomic_witness:
  "\<not> fst (sw_record_message \<lparr>window_size = 10, max_requests = 1, user_windows = [''u'' \<mapsto> [0]]\<rparr> ''u'' 5 6)
   \<and> snd (sw_record_message \<lparr>window_size = 10, max_requests = 1, user_windows = [''u'' \<mapsto> [0]]\<rparr> ''u'' 5 6)
       = cleanup_window \<lparr>window_size = 10, max_requests = 1, user_windows = [''u'' \<mapsto> [0]]\<rparr> ''u'' 6
   \<and> (5::real) \<le> 6
   \<and> \<not> fst (th_record_message \<lparr>min_interval = 10, last_message_time = [''u'' \<mapsto> 0]\<rparr> ''u'' 5 6)
   \<and> snd (th_record_message \<lparr>min_interval = 10, last_message_time = [''u'' \<mapsto> 0]\<rparr> ''u'' 5 6)
       = \<lparr>min_interval = 10, last_message_time = [''u'' \<mapsto> 0]\<rparr>"
proof -
  let ?s = "\<lparr>window_size = 10, max_requests = 1, user_windows = [''u'' \<mapsto> [0::real]]\<rparr>"
  let ?th = "\<lparr>min_interval = 10, last_message_time = [''u'' \<mapsto> 0::real]\<rparr>"
  have a: "\<not> fst (sw_record_message ?s ''u'' 5 6)"
    by (simp add: sw_record_message_unfold sw_can_send_message_unfold cleanup_window_unfold Let_def)
  have b: "\<not> fst (th_record_message ?th ''u'' 5 6)"
    by (simp add: th_record_message_def th_can_send_message_def)
  have c: "(5::real) \<le> 6" by simp
  from C6_rejection_atomic[of ?s "''u''" 5 6 ?th] a b c show ?thesis by blast
qed

subsection \<open>C7: no empty sequence is stored\<close>

text \<open>
  C7. After every sequence of calls on a constructed sliding-window instance, no user maps
  to an empty sequence: a user whose sequence is emptied by the cleanup is deleted.
\<close>

theorem C7_no_empty_entry:
  assumes "SlidingWindowRateLimiter ws mr = Inr s0"
  shows "user_windows (sw_exec s0 cs) u \<noteq> Some []"
proof -
  from assms have "\<forall>v. user_windows s0 v \<noteq> Some []"
    by (auto simp: SlidingWindowRateLimiter_def)
  then show ?thesis by (rule sw_exec_not_empty)
qed

theorem C7_no_empty_entry_witness:
  "SlidingWindowRateLimiter 10 1 =
      Inr \<lparr>window_size = 10, max_requests = 1, user_windows = Map.empty\<rparr>
   \<and> user_windows (sw_exec \<lparr>window_size = 10, max_requests = 1, user_windows = Map.empty\<rparr>
        [RecordMessage ''u'' 0 0]) ''u'' = Some [0]
   \<and> user_windows (sw_exec \<lparr>window_size = 10, max_requests = 1, user_windows = Map.empty\<rparr>
        [RecordMessage ''u'' 0 0, CanSend ''u'' 20]) ''u'' = None
   \<and> user_windows (sw_exec \<lparr>window_size = 10, max_requests = 1, user_windows = Map.empty\<rparr>
        [RecordMessage ''u'' 0 0, CanSend ''u'' 20]) ''u'' \<noteq> Some []"
proof -
  let ?s0 = "\<lparr>window_size = 10, max_requests = 1, user_windows = Map.empty\<rparr>"
  have a: "SlidingWindowRateLimiter 10 1 = Inr ?s0" by (simp add: SlidingWindowRateLimiter_def)
  have b: "user_windows (sw_exec ?s0 [RecordMessage ''u'' 0 0]) ''u'' = Some [0]"
    by (simp add: sw_record_message_unfold sw_can_send_message_unfold cleanup_window_unfold Let_def)
  have c: "user_windows (sw_exec ?s0 [RecordMessage ''u'' 0 0, CanSend ''u'' 20]) ''u'' = None"
    by (simp add: sw_record_message_unfold sw_can_send_message_unfold cleanup_window_unfold Let_def)
  from C7_no_empty_entry[OF a, of "[RecordMessage ''u'' 0 0, CanSend ''u'' 20]" "''u''"] a b c
  show ?thesis by blast
qed

subsection \<open>C8: the waiting time never grows while nothing is recorded\<close>



subsection \<open>C9: users do not interfere\<close>

text \<open>
  C9. For two distinct users \<open>a\<close> and \<open>b\<close> and every state of either limiter,
  \<^verbatim>\<open>record_message\<close> for \<open>a\<close> leaves what is stored for \<open>b\<close> unchanged, and the answer of
  \<^verbatim>\<open>can_send_message\<close> for \<open>b\<close> at any given time is the same before and after.
\<close>

theorem C9_identity_isolation:
  assumes "a \<noteq> b"
  shows "user_windows (snd (sw_record_message s a t t')) b = user_windows s b
       \<and> fst (sw_can_send_message (snd (sw_record_message s a t t')) b tb)
           = fst (sw_can_send_message s b tb)
       \<and> last_message_time (snd (th_record_message th a t t')) b = last_message_time th b
       \<and> th_can_send_message (snd (th_record_message th a t t')) b tb
           = th_can_send_message th b tb"
proof -
  let ?s' = "snd (sw_record_message s a t t')"
  have w: "user_windows ?s' b = user_windows s b" using assms by (rule sw_record_state_other)
  then have "window_of ?s' b = window_of s b" by (simp add: window_of_def)
  then have c: "fst (sw_can_send_message ?s' b tb) = fst (sw_can_send_message s b tb)"
    by (simp add: sw_can_send_fst)
  have l: "last_message_time (snd (th_record_message th a t t')) b = last_message_time th b"
    using assms by (simp add: th_record_message_def)
  have m: "min_interval (snd (th_record_message th a t t')) = min_interval th"
    by (simp add: th_record_message_def)
  from l m have d: "th_can_send_message (snd (th_record_message th a t t')) b tb
           = th_can_send_message th b tb"
    by (simp add: th_can_send_message_def split: option.splits)
  from w c l d show ?thesis by blast
qed

theorem C9_identity_isolation_witness:
  "''a'' \<noteq> ''b''
   \<and> fst (sw_record_message \<lparr>window_size = 10, max_requests = 1, user_windows = Map.empty\<rparr> ''a'' 0 0)
   \<and> user_windows (snd (sw_record_message
         \<lparr>window_size = 10, max_requests = 1, user_windows = Map.empty\<rparr> ''a'' 0 0)) ''b'' = None
   \<and> fst (sw_can_send_message (snd (sw_record_message
         \<lparr>window_size = 10, max_requests = 1, user_windows = Map.empty\<rparr> ''a'' 0 0)) ''b'' 0)
       = fst (sw_can_send_message \<lparr>window_size = 10, max_requests = 1, user_windows = Map.empty\<rparr> ''b'' 0)
   \<and> last_message_time (snd (th_record_message
         \<lparr>min_interval = 10, last_message_time = Map.empty\<rparr> ''a'' 0 0)) ''b'' = None
   \<and> th_can_send_message (snd (th_record_message
         \<lparr>min_interval = 10, last_message_time = Map.empty\<rparr> ''a'' 0 0)) ''b'' 0
       = th_can_send_message \<lparr>min_interval = 10, last_message_time = Map.empty\<rparr> ''b'' 0"
proof -
  let ?s = "\<lparr>window_size = 10, max_requests = 1, user_windows = Map.empty\<rparr>"
  let ?th = "\<lparr>min_interval = 10, last_message_time = Map.empty\<rparr>"
  have ab: "''a'' \<noteq> ''b''" by simp
  have f: "fst (sw_record_message ?s ''a'' 0 0)"
    by (simp add: sw_record_message_unfold sw_can_send_message_unfold cleanup_window_unfold Let_def)
  from C9_identity_isolation[OF ab, of ?s 0 0 0 ?th] ab f show ?thesis by simp
qed

subsection \<open>C10: can_send_message agrees with time_until_next_allowed\<close>

text \<open>
  In exact arithmetic, for both limiters and every state: \<^verbatim>\<open>can_send_message\<close> returns
  True if and only if \<^verbatim>\<open>time_until_next_allowed\<close> returns exactly 0.
\<close>

lemma consistency_exact_arithmetic:
  "(fst (sw_can_send_message s u t) \<longleftrightarrow> fst (sw_time_until_next_allowed s u t) = Inr 0)
   \<and> (th_can_send_message th u t \<longleftrightarrow> th_time_until_next_allowed th u t = 0)"
proof -
  let ?w = "popleft_while (t - window_size s) (window_of s u)"
  have sw: "fst (sw_can_send_message s u t) \<longleftrightarrow> fst (sw_time_until_next_allowed s u t) = Inr 0"
  proof (cases "?w = [] \<or> int (length ?w) < max_requests s")
    case True
    then show ?thesis by (simp add: sw_can_send_fst sw_tuna_fst Let_def)
  next
    case False
    then have "t - window_size s < hd ?w" by (simp add: popleft_hd')
    with False show ?thesis by (simp add: sw_can_send_fst sw_tuna_fst Let_def)
  qed
  have th: "th_can_send_message th u t \<longleftrightarrow> th_time_until_next_allowed th u t = 0"
    by (auto simp: th_can_send_message_def th_time_until_next_allowed_def Let_def split: option.splits)
  from sw th show ?thesis by blast
qed

text \<open>
  C10. The property: for both limiters, every user, state and time,
  \<^verbatim>\<open>can_send_message\<close> returns True if and only if \<^verbatim>\<open>time_until_next_allowed\<close>, on the
  same state at the same time, returns exactly 0. With doubles the sliding window breaks
  it. Take \<open>window_size = 0.5\<close> and \<open>max_requests = 1\<close>, and let a \<^verbatim>\<open>record_message\<close>
  be accepted when the clock reads the double \<^verbatim>\<open>0.1\<close>. When the clock reads the double
  \<^verbatim>\<open>0.6\<close>, the cutoff \<^verbatim>\<open>0.6 - 0.5\<close> is just below the stored timestamp, which therefore
  stays, and \<^verbatim>\<open>can_send_message\<close> returns False; but \<^verbatim>\<open>0.1 + 0.5\<close> rounds to \<^verbatim>\<open>0.6\<close>, so
  the wait is \<^verbatim>\<open>0.6 - 0.6\<close> and \<^verbatim>\<open>time_until_next_allowed\<close> returns exactly 0.
\<close>

theorem C10_refused_with_zero_wait:
  "round_b64 (1 / 10) = 3602879701896397 / 2 ^ 55
   \<and> round_b64 (6 / 10) = 5404319552844595 / 2 ^ 53
   \<and> sw_record_message_rounded round_b64
        \<lparr>window_size = 1 / 2, max_requests = 1, user_windows = Map.empty\<rparr>
        ''u'' (3602879701896397 / 2 ^ 55) (3602879701896397 / 2 ^ 55)
       = (True, \<lparr>window_size = 1 / 2, max_requests = 1,
                 user_windows = [''u'' \<mapsto> [3602879701896397 / 2 ^ 55]]\<rparr>)
   \<and> fst (sw_can_send_message_rounded round_b64
        \<lparr>window_size = 1 / 2, max_requests = 1,
          user_windows = [''u'' \<mapsto> [3602879701896397 / 2 ^ 55]]\<rparr>
        ''u'' (5404319552844595 / 2 ^ 53)) = False
   \<and> fst (sw_time_until_next_allowed_rounded round_b64
        \<lparr>window_size = 1 / 2, max_requests = 1,
          user_windows = [''u'' \<mapsto> [3602879701896397 / 2 ^ 55]]\<rparr>
        ''u'' (5404319552844595 / 2 ^ 53)) = Inr 0"
proof -
  let ?s1 = "\<lparr>window_size = 1 / 2, max_requests = 1,
          user_windows = [''u'' \<mapsto> [3602879701896397 / 2 ^ 55 :: real]]\<rparr>"
  have rec: "sw_record_message_rounded round_b64
        \<lparr>window_size = 1 / 2, max_requests = 1, user_windows = Map.empty\<rparr>
        ''u'' (3602879701896397 / 2 ^ 55) (3602879701896397 / 2 ^ 55) = (True, ?s1)"
    by (simp add: sw_record_message_rounded_def sw_can_send_message_rounded_def
        cleanup_window_rounded_def)
  have cl: "cleanup_window_rounded round_b64 ?s1 ''u'' (5404319552844595 / 2 ^ 53) = ?s1"
    by (simp add: cleanup_window_rounded_def double_difference_numeral Let_def)
  have can: "fst (sw_can_send_message_rounded round_b64 ?s1 ''u'' (5404319552844595 / 2 ^ 53))
      = False"
    unfolding sw_can_send_message_rounded_def Let_def cl by simp
  have "round_b64 (round_b64 (3602879701896397 / 2 ^ 55 + 1 / 2) - 5404319552844595 / 2 ^ 53) = 0"
    by (simp add: double_sum_numeral round_b64_zero)
  then have w: "fst (sw_time_until_next_allowed_rounded round_b64 ?s1 ''u''
      (5404319552844595 / 2 ^ 53)) = Inr 0"
    unfolding sw_time_until_next_allowed_rounded_def Let_def cl by simp
  from double_one_tenth double_six_tenths rec can w show ?thesis by blast
qed

end
